theory Spec2Isabelle
  imports Main "HOL-Library.Sublist" "HOL-Library.Char_ord" "HOL-Library.List_Lexorder"
begin

section \<open>Characters and strings\<close>

text \<open>
  The program is \<^verbatim>\<open>src/app.py\<close>. Python strings are modelled as \<^typ>\<open>string\<close>; a character
  is one 8-bit \<^typ>\<open>char\<close>. On such characters the regular-expression class \<^verbatim>\<open>\d\<close> is the ten
  ASCII digits and \<^verbatim>\<open>[A-Z]\<close> the twenty-six ASCII capitals.
\<close>

definition is_digit :: "char \<Rightarrow> bool" where
  "is_digit c = (c \<in> set ''0123456789'')"

definition is_upper :: "char \<Rightarrow> bool" where
  "is_upper c = (c \<in> set ''ABCDEFGHIJKLMNOPQRSTUVWXYZ'')"

text \<open>\<^verbatim>\<open>str.upper\<close>, on the ASCII letters; every other character is left as it is.\<close>

definition upper_char :: "char \<Rightarrow> char" where
  "upper_char c =
     (case map_of (zip ''abcdefghijklmnopqrstuvwxyz'' ''ABCDEFGHIJKLMNOPQRSTUVWXYZ'') c of
        Some u \<Rightarrow> u
      | None \<Rightarrow> c)"

definition upper :: "string \<Rightarrow> string" where
  "upper s = map upper_char s"

text \<open>\<^verbatim>\<open>s.startswith(p)\<close> and \<^verbatim>\<open>s.endswith(p)\<close>.\<close>

definition startswith :: "string \<Rightarrow> string \<Rightarrow> bool" where
  "startswith s p = (take (length p) s = p)"

definition endswith :: "string \<Rightarrow> string \<Rightarrow> bool" where
  "endswith s p = (length p \<le> length s \<and> drop (length s - length p) s = p)"

text \<open>\<^verbatim>\<open>s.replace(old, new)\<close> for a one-character \<^verbatim>\<open>old\<close> and a string \<^verbatim>\<open>new\<close>.\<close>

definition replace :: "string \<Rightarrow> char \<Rightarrow> string \<Rightarrow> string" where
  "replace s old new = concat (map (\<lambda>c. if c = old then new else [c]) s)"

text \<open>
  \<^verbatim>\<open>s.zfill(width)\<close>: zeros are put on the left up to \<^verbatim>\<open>width\<close>, after a leading sign
  character if there is one.
\<close>

definition zfill :: "string \<Rightarrow> nat \<Rightarrow> string" where
  "zfill s width =
     (if width \<le> length s then s
      else (case s of
              [] \<Rightarrow> replicate width CHR ''0''
            | c # t \<Rightarrow>
                if c = CHR ''+'' \<or> c = CHR ''-''
                then c # replicate (width - length s) CHR ''0'' @ t
                else replicate (width - length s) CHR ''0'' @ s))"

section \<open>Regular expressions as backtracking matchers\<close>

text \<open>
  A matcher maps the text at the current position to the list of its matches there, each a
  pair of the consumed text and the text left over, in the order in which Python's
  backtracking \<^verbatim>\<open>re\<close> engine tries them. \<^verbatim>\<open>re.match\<close> takes the first element of the list.
\<close>

type_synonym matcher = "string \<Rightarrow> (string \<times> string) list"

text \<open>One character of a class.\<close>

definition cls :: "(char \<Rightarrow> bool) \<Rightarrow> matcher" where
  "cls P s = (case s of [] \<Rightarrow> [] | c # t \<Rightarrow> if P c then [([c], t)] else [])"

text \<open>Concatenation \<^verbatim>\<open>pq\<close>: every match of \<^verbatim>\<open>p\<close>, in order, continued by every match of \<^verbatim>\<open>q\<close>.\<close>

definition seq :: "matcher \<Rightarrow> matcher \<Rightarrow> matcher" where
  "seq p q s = concat (map (\<lambda>(m1, r1). map (\<lambda>(m2, r2). (m1 @ m2, r2)) (q r1)) (p s))"

text \<open>Alternation \<^verbatim>\<open>p|q\<close>: the left branch first.\<close>

definition alt :: "matcher \<Rightarrow> matcher \<Rightarrow> matcher" where
  "alt p q s = p s @ q s"

text \<open>The greedy \<^verbatim>\<open>p?\<close>: with \<^verbatim>\<open>p\<close> first, without it last.\<close>

definition opt :: "matcher \<Rightarrow> matcher" where
  "opt p s = p s @ [([], s)]"

text \<open>The greedy \<^verbatim>\<open>p{0,n}\<close>: the longest repetition first.\<close>

primrec rep_upto :: "nat \<Rightarrow> matcher \<Rightarrow> matcher" where
  "rep_upto 0 p = (\<lambda>s. [([], s)])"
| "rep_upto (Suc n) p = opt (seq p (rep_upto n p))"

text \<open>The greedy \<^verbatim>\<open>[class]*\<close> and \<^verbatim>\<open>[class]+\<close>: the longest run first.\<close>

primrec star_cls :: "(char \<Rightarrow> bool) \<Rightarrow> matcher" where
  "star_cls P [] = [([], [])]"
| "star_cls P (c # t) =
     (if P c then map (\<lambda>(m, r). (c # m, r)) (star_cls P t) @ [([], c # t)]
      else [([], c # t)])"

definition plus_cls :: "(char \<Rightarrow> bool) \<Rightarrow> matcher" where
  "plus_cls P = seq (cls P) (star_cls P)"

text \<open>A literal character, and a literal string under \<^verbatim>\<open>re.IGNORECASE\<close>.\<close>

definition chr :: "char \<Rightarrow> matcher" where
  "chr x = cls (\<lambda>c. c = x)"

primrec lit_ci :: "string \<Rightarrow> matcher" where
  "lit_ci [] = (\<lambda>s. [([], s)])"
| "lit_ci (x # xs) = seq (cls (\<lambda>c. upper_char c = upper_char x)) (lit_ci xs)"

text \<open>\<^verbatim>\<open>\d{1,2}\<close> and \<^verbatim>\<open>\d{1,4}\<close>.\<close>

definition digits_1_to :: "nat \<Rightarrow> matcher" where
  "digits_1_to n = seq (cls is_digit) (rep_upto (n - 1) (cls is_digit))"


section \<open>Normalising a candidate code\<close>

text \<open>
  The pattern of \<^verbatim>\<open>autocorrect_match\<close>, \<^verbatim>\<open>([A-Z]+)[-]?(\d{1,2})[-]?(\d{1,4})\<close>, with its three
  groups. \<^verbatim>\<open>re.match\<close> anchors the match at the start of the string and not at its end.
\<close>

definition parts_matches :: "string \<Rightarrow> (string \<times> string \<times> string) list" where
  "parts_matches s =
     concat (map (\<lambda>(g1, r1).
       concat (map (\<lambda>(d1, r2).
         concat (map (\<lambda>(g2, r3).
           concat (map (\<lambda>(d2, r4).
             map (\<lambda>(g3, r5). (g1, g2, g3)) (digits_1_to 4 r4))
           (opt (chr CHR ''-'') r3)))
         (digits_1_to 2 r2)))
       (opt (chr CHR ''-'') r1)))
     (plus_cls is_upper s))"

definition re_match_parts :: "string \<Rightarrow> (string \<times> string \<times> string) option" where
  "re_match_parts s = (case parts_matches s of [] \<Rightarrow> None | g # _ \<Rightarrow> Some g)"

text \<open>The \<^verbatim>\<open>if\<close>/\<^verbatim>\<open>elif\<close> chain of prefix substitutions; the first test that holds wins.\<close>

definition fix_prefix :: "string \<Rightarrow> string" where
  "fix_prefix m =
     (if startswith m ''P0-'' then ''PO'' @ drop 2 m
      else if startswith m ''PQ-'' then ''PO'' @ drop 2 m
      else if startswith m ''RNW-'' then ''RNWS'' @ drop 3 m
      else if startswith m ''5P0-'' then ''SPO'' @ drop 3 m
      else if startswith m ''56R-'' then ''SGR'' @ drop 3 m
      else m)"

text \<open>The chain of six \<^verbatim>\<open>replace\<close> calls applied to each numeric group.\<close>

definition confusion_fix :: "string \<Rightarrow> string" where
  "confusion_fix s =
     replace (replace (replace (replace (replace (replace s
       CHR ''O'' ''0'') CHR ''I'' ''1'') CHR ''S'' ''5'') CHR ''B'' ''8'') CHR ''Z'' ''2'')
       CHR ''G'' ''6''"

definition locked_prefixes :: "string list" where
  "locked_prefixes = [''PO'', ''SPO'', ''RNWS'', ''SGR'', ''SSR'']"

definition autocorrect_match :: "string \<Rightarrow> string" where
  "autocorrect_match m0 =
     (let m = fix_prefix (replace m0 CHR '' '' '''') in
      case re_match_parts m of
        Some (pfx, g2, g3) \<Rightarrow>
          (let second_part = confusion_fix (zfill g2 2);
               last_part = confusion_fix (zfill g3 4);
               second_part = (if pfx \<in> set locked_prefixes
                              then ''2'' @ drop 1 second_part else second_part)
           in pfx @ ''-'' @ second_part @ ''-'' @ last_part)
      | None \<Rightarrow> m)"

text \<open>
  What the chain of prefix substitutions does to a string that begins with capitals and a
  dash: of the five tests only \<^verbatim>\<open>PQ-\<close> and \<^verbatim>\<open>RNW-\<close> can hold there.
\<close>

definition fixed_letters :: "string \<Rightarrow> string" where
  "fixed_letters L = (if L = ''PQ'' then ''PO'' else if L = ''RNW'' then ''RNWS'' else L)"

text \<open>
  The canonical form of a code, \<^verbatim>\<open>^[A-Z]+-\d{2}-\d{4}$\<close>: capitals, a dash, two digits, a
  dash, four digits, and nothing after them.
\<close>

definition is_canonical :: "string \<Rightarrow> bool" where
  "is_canonical s =
     (let letters = takeWhile is_upper s; r = dropWhile is_upper s
      in letters \<noteq> [] \<and> length r = 8 \<and> r ! 0 = CHR ''-'' \<and> is_digit (r ! 1) \<and> is_digit (r ! 2)
         \<and> r ! 3 = CHR ''-'' \<and> list_all is_digit (drop 4 r))"

text \<open>
  The variant of \<^verbatim>\<open>autocorrect_match\<close> without lines 126 and 127, the two chains of
  \<^verbatim>\<open>replace\<close> calls; everything else is as in \<^const>\<open>autocorrect_match\<close>.
\<close>

definition autocorrect_match_without_replace :: "string \<Rightarrow> string" where
  "autocorrect_match_without_replace m0 =
     (let m = fix_prefix (replace m0 CHR '' '' '''') in
      case re_match_parts m of
        Some (pfx, g2, g3) \<Rightarrow>
          (let second_part = zfill g2 2;
               last_part = zfill g3 4;
               second_part = (if pfx \<in> set locked_prefixes
                              then ''2'' @ drop 1 second_part else second_part)
           in pfx @ ''-'' @ second_part @ ''-'' @ last_part)
      | None \<Rightarrow> m)"

section \<open>Finding the candidate codes in a text\<close>

text \<open>
  The pattern of \<^verbatim>\<open>process_pdf\<close>,
  \<^verbatim>\<open>(?:P0|PO|SPO|RNWS|SGR|SSR) ?\d?-?\d{1,2}-\d{1,4}\<close>, compiled with \<^verbatim>\<open>re.IGNORECASE\<close>.
\<close>

definition candidate_tokens :: "string list" where
  "candidate_tokens = [''P0'', ''PO'', ''SPO'', ''RNWS'', ''SGR'', ''SSR'']"

definition token_matcher :: matcher where
  "token_matcher =
     alt (lit_ci ''P0'') (alt (lit_ci ''PO'') (alt (lit_ci ''SPO'')
       (alt (lit_ci ''RNWS'') (alt (lit_ci ''SGR'') (lit_ci ''SSR'')))))"

definition candidate_pattern :: matcher where
  "candidate_pattern =
     seq token_matcher
    (seq (opt (chr CHR '' ''))
    (seq (opt (cls is_digit))
    (seq (opt (chr CHR ''-''))
    (seq (digits_1_to 2)
    (seq (chr CHR ''-'')
         (digits_1_to 4))))))"

text \<open>A string matches a pattern when one of the pattern's matches consumes all of it.\<close>

definition fullmatch :: "matcher \<Rightarrow> string \<Rightarrow> bool" where
  "fullmatch p s = list_ex (\<lambda>(m, r). r = []) (p s)"

text \<open>
  \<^verbatim>\<open>re.findall\<close>: the text is scanned from the left; at each position the first match of
  the pattern is taken and the scan goes on after it; where nothing matches, the scan moves
  one character on. An empty match, which the candidate pattern never has, moves the scan
  one character on as well.
\<close>

function findall :: "matcher \<Rightarrow> string \<Rightarrow> string list" where
  "findall p [] = (case p [] of [] \<Rightarrow> [] | _ # _ \<Rightarrow> [[]])"
| "findall p (c # t) =
     (case p (c # t) of
        [] \<Rightarrow> findall p t
      | (m, r) # _ \<Rightarrow>
          if length r < length (c # t) then m # findall p r else [] # findall p t)"
  by pat_completeness auto
termination
  by (relation "measure (\<lambda>(p, s). length s)") auto

section \<open>The name of the classified file\<close>

text \<open>\<^verbatim>\<open>'_'.join(matches)\<close>.\<close>

fun join_underscore :: "string list \<Rightarrow> string" where
  "join_underscore [] = []"
| "join_underscore [x] = x"
| "join_underscore (x # y # ys) = x @ ''_'' @ join_underscore (y # ys)"

text \<open>
  The normalised codes of a text: every candidate in upper case, normalised, then
  \<^verbatim>\<open>list(set(matches))\<close> and \<^verbatim>\<open>matches.sort()\<close>, which leave the distinct codes in
  ascending order of Python's string comparison (lexicographic on the characters).
\<close>

definition raw_matches :: "string \<Rightarrow> string list" where
  "raw_matches text = map upper (findall candidate_pattern text)"

definition normalized_codes :: "string list \<Rightarrow> string list" where
  "normalized_codes ms = sort (remdups (map autocorrect_match ms))"

text \<open>Lines 158 to 161: the joined name, the suffix, and the cut at \<^verbatim>\<open>max_length\<close>.\<close>

definition build_final_name :: "string list \<Rightarrow> string" where
  "build_final_name ms =
     (let final_name = join_underscore ms @ ''.pdf'';
          max_length = 150 - 4
      in if length final_name > max_length
         then take max_length final_name @ ''.pdf''
         else final_name)"

text \<open>\<^verbatim>\<open>str(num)\<close> for a natural number.\<close>

fun str_nat :: "nat \<Rightarrow> string" where
  "str_nat n =
     (if n < 10 then [''0123456789'' ! n]
      else str_nat (n div 10) @ [''0123456789'' ! (n mod 10)])"

declare str_nat.simps [simp del]

section \<open>Paths\<close>

text \<open>\<^verbatim>\<open>os.path.basename\<close>, \<^verbatim>\<open>os.path.dirname\<close> and the two-argument \<^verbatim>\<open>os.path.join\<close> of POSIX.\<close>

definition basename :: "string \<Rightarrow> string" where
  "basename p = rev (takeWhile (\<lambda>c. c \<noteq> CHR ''/'') (rev p))"

definition rstrip_slash :: "string \<Rightarrow> string" where
  "rstrip_slash p = rev (dropWhile (\<lambda>c. c = CHR ''/'') (rev p))"

definition dirname :: "string \<Rightarrow> string" where
  "dirname p =
     (let head = rev (dropWhile (\<lambda>c. c \<noteq> CHR ''/'') (rev p))
      in if head \<noteq> [] \<and> \<not> list_all (\<lambda>c. c = CHR ''/'') head then rstrip_slash head else head)"

definition path_join :: "string \<Rightarrow> string \<Rightarrow> string" where
  "path_join a b =
     (if startswith b ''/'' then b
      else if a = [] \<or> endswith a ''/'' then a @ b
      else a @ ''/'' @ b)"

section \<open>The file system\<close>

text \<open>
  The file system is a map from paths to the contents of the regular files, and the set of
  the directories. The empty path, which \<^verbatim>\<open>os.path.dirname\<close> gives for a bare file name,
  stands for the working directory. Paths are compared as strings. The sources of renames
  and moves are regular files; a directory as the source of a move is outside the model.
\<close>

type_synonym content = string

record world =
  files :: "string \<rightharpoonup> content"
  dirs :: "string set"

datatype exn =
    FileNotFoundError
  | IsADirectoryError
  | FileExistsError
  | PermissionError
  | ShutilError
  | ExtractError

datatype syscall =
    Rename string string
  | Copy string string
  | Unlink string
  | Mkdir string

text \<open>
  What the program does not decide: the text extractor, which yields the text of a document
  or raises, and the operating system's refusals (a directory without write permission, a
  full disk), given as the set of the system calls that fail with an \<^verbatim>\<open>OSError\<close>.
\<close>

record env =
  extract_text :: "content \<Rightarrow> exn + string"
  refuses :: "syscall \<Rightarrow> bool"

definition os_exists :: "world \<Rightarrow> string \<Rightarrow> bool" where
  "os_exists w p = (files w p \<noteq> None \<or> p \<in> dirs w)"

definition parent_exists :: "world \<Rightarrow> string \<Rightarrow> bool" where
  "parent_exists w p = (dirname p = [] \<or> dirname p \<in> dirs w)"

text \<open>\<^verbatim>\<open>os.rename\<close> on POSIX: an existing regular file at the destination is replaced.\<close>

definition os_rename :: "env \<Rightarrow> world \<Rightarrow> string \<Rightarrow> string \<Rightarrow> exn + world" where
  "os_rename E w src dst =
     (if refuses E (Rename src dst) then Inl PermissionError
      else case files w src of
             None \<Rightarrow> Inl FileNotFoundError
           | Some c \<Rightarrow>
               if dst \<in> dirs w then Inl IsADirectoryError
               else if \<not> parent_exists w dst then Inl FileNotFoundError
               else Inr (w\<lparr>files := ((files w)(src := None))(dst \<mapsto> c)\<rparr>))"

text \<open>\<^verbatim>\<open>shutil.copy2\<close>: into the directory when the destination is one.\<close>

definition copy2 :: "env \<Rightarrow> world \<Rightarrow> string \<Rightarrow> string \<Rightarrow> exn + world" where
  "copy2 E w src dst =
     (if refuses E (Copy src dst) then Inl PermissionError
      else case files w src of
             None \<Rightarrow> Inl FileNotFoundError
           | Some c \<Rightarrow>
               (let dst = (if dst \<in> dirs w then path_join dst (basename src) else dst)
                in if dst \<in> dirs w then Inl IsADirectoryError
                   else if \<not> parent_exists w dst then Inl FileNotFoundError
                   else Inr (w\<lparr>files := (files w)(dst \<mapsto> c)\<rparr>)))"

definition os_unlink :: "env \<Rightarrow> world \<Rightarrow> string \<Rightarrow> exn + world" where
  "os_unlink E w p =
     (if refuses E (Unlink p) then Inl PermissionError
      else if files w p = None then Inl FileNotFoundError
      else Inr (w\<lparr>files := (files w)(p := None)\<rparr>))"

definition os_mkdir :: "env \<Rightarrow> world \<Rightarrow> string \<Rightarrow> exn + world" where
  "os_mkdir E w d =
     (if refuses E (Mkdir d) then Inl PermissionError
      else if os_exists w d then Inl FileExistsError
      else if \<not> parent_exists w d then Inl FileNotFoundError
      else Inr (w\<lparr>dirs := insert d (dirs w)\<rparr>))"

text \<open>
  \<^verbatim>\<open>shutil.move(src, dst)\<close> for a regular file \<^verbatim>\<open>src\<close>. A destination that is a directory
  means the entry of that directory named like the source, and an existing entry there
  raises \<^verbatim>\<open>shutil.Error\<close>. The move is an \<^verbatim>\<open>os.rename\<close>; when that raises an \<^verbatim>\<open>OSError\<close>
  the file is copied and the source unlinked. A failure returns the exception together
  with the file system as the failed move leaves it.
\<close>

definition move_to :: "env \<Rightarrow> world \<Rightarrow> string \<Rightarrow> string \<Rightarrow> (exn \<times> world) + world" where
  "move_to E w src real_dst =
     (case os_rename E w src real_dst of
        Inr w1 \<Rightarrow> Inr w1
      | Inl _ \<Rightarrow>
          (case copy2 E w src real_dst of
             Inl e \<Rightarrow> Inl (e, w)
           | Inr w1 \<Rightarrow>
               (case os_unlink E w1 src of
                  Inl e \<Rightarrow> Inl (e, w1)
                | Inr w2 \<Rightarrow> Inr w2)))"

definition shutil_move :: "env \<Rightarrow> world \<Rightarrow> string \<Rightarrow> string \<Rightarrow> (exn \<times> world) + world" where
  "shutil_move E w src dst =
     (if dst \<in> dirs w
      then (let real_dst = path_join dst (basename (rstrip_slash src))
            in if os_exists w real_dst then Inl (ShutilError, w)
               else move_to E w src real_dst)
      else move_to E w src dst)"

section \<open>The classification stage\<close>

text \<open>
  Lines 163 to 167: when the name is taken in \<^verbatim>\<open>final-output\<close>, the suffixes \<^verbatim>\<open>(1)\<close>,
  \<^verbatim>\<open>(2)\<close>, ... are tried in turn. The loop has no bound of its own, so it is a partial
  function: \<^const>\<open>None\<close> is the loop that never ends.
\<close>

definition suffixed :: "string \<Rightarrow> nat \<Rightarrow> string" where
  "suffixed final_name num =
     take (length final_name - 4) final_name @ ''('' @ str_nat num @ '').pdf''"

partial_function (option) probe :: "world \<Rightarrow> string \<Rightarrow> nat \<Rightarrow> nat option" where
  "probe w final_name num =
     (if os_exists w (path_join ''final-output'' (suffixed final_name num))
      then probe w final_name (num + 1)
      else Some num)"

definition resolve_collision :: "world \<Rightarrow> string \<Rightarrow> string option" where
  "resolve_collision w final_name =
     (if os_exists w (path_join ''final-output'' final_name)
      then (case probe w final_name 1 of
              None \<Rightarrow> None
            | Some num \<Rightarrow> Some (suffixed final_name num))
      else Some final_name)"

text \<open>
  The body of the \<^verbatim>\<open>try\<close> statement of \<^verbatim>\<open>process_pdf\<close>. In the source the \<^verbatim>\<open>else\<close> of line
  171 is indented less than the statements of lines 158 to 170 before it, which Python
  rejects; the only \<^verbatim>\<open>if\<close> it can belong to is \<^verbatim>\<open>if matches:\<close> of line 154, so lines 155 to
  170 are taken as the branch of the documents with a code and lines 172 and 173 as the
  branch of the documents without one. An exception comes with the file system as it is
  when the exception is raised. The calls of \<^verbatim>\<open>print\<close> and \<^verbatim>\<open>time.sleep\<close> are left out.
\<close>

definition try_body :: "env \<Rightarrow> world \<Rightarrow> string \<Rightarrow> ((exn \<times> world) + world) option" where
  "try_body E w path =
     (case files w path of
        None \<Rightarrow> Some (Inl (FileNotFoundError, w))
      | Some c \<Rightarrow>
          (case extract_text E c of
             Inl e \<Rightarrow> Some (Inl (e, w))
           | Inr text \<Rightarrow>
               (let matches = raw_matches text in
                if matches \<noteq> [] then
                  (let final_name = build_final_name (normalized_codes matches) in
                   case resolve_collision w final_name of
                     None \<Rightarrow> None
                   | Some final_name \<Rightarrow>
                       (let renamed = path_join (dirname path) final_name in
                        case os_rename E w path renamed of
                          Inl e \<Rightarrow> Some (Inl (e, w))
                        | Inr w1 \<Rightarrow> Some (shutil_move E w1 renamed ''final-output'')))
                else Some (shutil_move E w path (path_join ''final-output'' (basename path))))))"

datatype outcome = Finished | Escaped exn

text \<open>The \<^verbatim>\<open>except Exception\<close> clause, lines 174 to 180.\<close>

definition quarantine :: "env \<Rightarrow> world \<Rightarrow> string \<Rightarrow> world \<times> outcome" where
  "quarantine E w path =
     (if os_exists w path then
        (case (if \<not> os_exists w ''ERROR'' then os_mkdir E w ''ERROR'' else Inr w) of
           Inl e \<Rightarrow> (w, Escaped e)
         | Inr w1 \<Rightarrow>
             (case shutil_move E w1 path (path_join ''ERROR'' (basename path)) of
                Inl (e, w2) \<Rightarrow> (w2, Escaped e)
              | Inr w2 \<Rightarrow> (w2, Finished)))
      else (w, Finished))"

definition process_pdf :: "env \<Rightarrow> world \<Rightarrow> string \<Rightarrow> (world \<times> outcome) option" where
  "process_pdf E w path =
     (if endswith path ''.pdf'' then
        (case try_body E w path of
           None \<Rightarrow> None
         | Some (Inr w1) \<Rightarrow> Some (w1, Finished)
         | Some (Inl (e, w1)) \<Rightarrow> Some (quarantine E w1 path))
      else Some (w, Finished))"

text \<open>
  The watch patterns, each a \<^verbatim>\<open>*\<close> followed by a suffix, and the event handler: on a
  \<^verbatim>\<open>created\<close> event the ingest stage \<^verbatim>\<open>execute_ocrmypdf\<close> runs, and when it returns the
  classification stage runs on the same path. The ingest stage is a parameter here.
\<close>

definition PATTERNS :: "string list" where
  "PATTERNS = [''*.pdf'', ''*.PDF'']"

definition pattern_accepts :: "string \<Rightarrow> string \<Rightarrow> bool" where
  "pattern_accepts pat p =
     (case pat of c # ext \<Rightarrow> if c = CHR ''*'' then endswith p ext else p = pat
      | [] \<Rightarrow> p = [])"

definition watched :: "string \<Rightarrow> bool" where
  "watched p = list_ex (\<lambda>pat. pattern_accepts pat p) PATTERNS"

definition on_any_event ::
  "env \<Rightarrow> (world \<Rightarrow> string \<Rightarrow> exn + world) \<Rightarrow> world \<Rightarrow> string \<Rightarrow> string
     \<Rightarrow> (world \<times> outcome) option" where
  "on_any_event E execute_ocrmypdf w event_type src_path =
     (if event_type \<in> set [''created''] then
        (case execute_ocrmypdf w src_path of
           Inl e \<Rightarrow> Some (w, Escaped e)
         | Inr w1 \<Rightarrow> process_pdf E w1 src_path)
      else Some (w, Finished))"

section \<open>The readiness gate\<close>

text \<open>
  What \<^verbatim>\<open>pikepdf.open\<close> does at an attempt: it returns a document, or raises one of the two
  exceptions that \<^verbatim>\<open>wait_for_file_ready\<close> catches, or raises another exception. The attempts
  are numbered from 0; the environment says what each of them does.
\<close>

datatype open_result = Opened | RaisesFileNotFound | RaisesPdfError | RaisesOther

datatype ready = Returns bool | Raises

text \<open>
  The \<^verbatim>\<open>while retries:\<close> loop. The counter is a Python integer read from the
  configuration, and the loop runs while it is not zero, so it is a partial function. The
  second component of the result is the number of calls of \<^verbatim>\<open>time.sleep\<close>.
\<close>

partial_function (option) wait_loop ::
  "(nat \<Rightarrow> open_result) \<Rightarrow> int \<Rightarrow> nat \<Rightarrow> (ready \<times> nat) option" where
  "wait_loop opens retries slept =
     (if retries \<noteq> 0 then
        (case opens slept of
           Opened \<Rightarrow> Some (Returns True, slept)
         | RaisesFileNotFound \<Rightarrow> wait_loop opens (retries - 1) (slept + 1)
         | RaisesPdfError \<Rightarrow> wait_loop opens (retries - 1) (slept + 1)
         | RaisesOther \<Rightarrow> Some (Raises, slept))
      else Some (Returns False, slept))"

definition wait_for_file_ready :: "int \<Rightarrow> (nat \<Rightarrow> open_result) \<Rightarrow> (ready \<times> nat) option" where
  "wait_for_file_ready RETRIES_LOADING_FILE opens = wait_loop opens RETRIES_LOADING_FILE 0"

section \<open>Example inputs\<close>

text \<open>An \<^verbatim>\<open>open\<close> that raises an exception other than the two that are caught.\<close>

definition open_denied :: "nat \<Rightarrow> open_result" where
  "open_denied attempt = RaisesOther"

text \<open>A file that is malformed at the first two attempts and opens from the third on.\<close>

definition open_third_time :: "nat \<Rightarrow> open_result" where
  "open_third_time attempt = (if attempt < 2 then RaisesPdfError else Opened)"

text \<open>Thirteen distinct codes in ascending order whose joined name has 143 characters.\<close>

definition thirteen_codes :: "string list" where
  "thirteen_codes =
     [''PO-20-0001'', ''PO-20-0002'', ''PO-20-0003'', ''PO-20-0004'', ''PO-20-0005'',
      ''PO-20-0006'', ''PO-20-0007'', ''PO-20-0008'', ''PO-20-0009'', ''PO-20-0010'',
      ''PO-20-0011'', ''PO-20-0012'', ''SPO-20-0001'']"

text \<open>An extractor that returns the content of the document as its text.\<close>

definition plain_env :: env where
  "plain_env = \<lparr>extract_text = Inr, refuses = (\<lambda>sc. False)\<rparr>"

text \<open>
  The same extractor, with a \<^verbatim>\<open>final-output\<close> directory that cannot be written: every
  rename and every copy to \<^verbatim>\<open>final-output/PO-20-0002.pdf\<close> is refused.
\<close>

definition readonly_output_env :: env where
  "readonly_output_env =
     \<lparr>extract_text = Inr,
      refuses = (\<lambda>sc. case sc of
                   Rename a b \<Rightarrow> b = ''final-output/PO-20-0002.pdf''
                 | Copy a b \<Rightarrow> b = ''final-output/PO-20-0002.pdf''
                 | Unlink a \<Rightarrow> False
                 | Mkdir a \<Rightarrow> False)\<rparr>"

definition coded_world :: world where
  "coded_world =
     \<lparr>files = [''scan-input/a.pdf'' \<mapsto> ''ref P0-20-0002 attached''],
      dirs = {''scan-input'', ''final-output''}\<rparr>"

text \<open>A document without a code, and an older document of the same name already filed.\<close>

definition uncoded_world :: world where
  "uncoded_world =
     \<lparr>files = [''scan-input/a.pdf'' \<mapsto> ''no code'',
               ''final-output/a.pdf'' \<mapsto> ''older document''],
      dirs = {''scan-input'', ''final-output''}\<rparr>"


section \<open>Properties of the matchers\<close>

lemma upper_not_digit: "is_upper c \<Longrightarrow> \<not> is_digit c"
  by (auto simp: is_upper_def is_digit_def)

lemma upper_not_special:
  "is_upper c \<Longrightarrow> c \<noteq> CHR ''-'' \<and> c \<noteq> CHR ''0'' \<and> c \<noteq> CHR ''5'' \<and> c \<noteq> CHR '' ''"
  by (auto simp: is_upper_def)

lemma digit_not_special:
  "is_digit c \<Longrightarrow> c \<noteq> CHR ''-'' \<and> c \<noteq> CHR ''+'' \<and> c \<noteq> CHR '' '' \<and> c \<noteq> CHR ''O'' \<and> c \<noteq> CHR ''I'' \<and> c \<noteq> CHR ''S''
     \<and> c \<noteq> CHR ''B'' \<and> c \<noteq> CHR ''Z'' \<and> c \<noteq> CHR ''G''"
  by (auto simp: is_digit_def)

lemma replace_absent: "old \<notin> set s \<Longrightarrow> replace s old new = s"
  by (induction s) (auto simp: replace_def)

lemma confusion_fix_digits: "list_all is_digit s \<Longrightarrow> confusion_fix s = s"
proof -
  assume d: "list_all is_digit s"
  have "\<And>c. c \<in> set s \<Longrightarrow> is_digit c" using d by (simp add: list_all_iff)
  then have "CHR ''O'' \<notin> set s" "CHR ''I'' \<notin> set s" "CHR ''S'' \<notin> set s"
    "CHR ''B'' \<notin> set s" "CHR ''Z'' \<notin> set s" "CHR ''G'' \<notin> set s"
    using digit_not_special by blast+
  then show ?thesis by (simp add: confusion_fix_def replace_absent)
qed

lemma zfill_digits:
  "list_all is_digit g \<Longrightarrow> zfill g w = replicate (w - length g) CHR ''0'' @ g"
  by (cases g) (auto simp: zfill_def digit_not_special)

lemma zero_digit: "is_digit CHR ''0''" "is_digit CHR ''2''"
  by (simp_all add: is_digit_def)

lemma zfill_digits_all: "list_all is_digit g \<Longrightarrow> list_all is_digit (zfill g w)"
  by (auto simp: zfill_digits zero_digit list_all_iff)

lemma zfill_digits_length: "list_all is_digit g \<Longrightarrow> length g \<le> w \<Longrightarrow> length (zfill g w) = w"
  by (simp add: zfill_digits)

lemma cls_sound: "(m, r) \<in> set (cls P s) \<Longrightarrow> \<exists>c. m = [c] \<and> s = c # r \<and> P c"
  by (cases s) (auto simp: cls_def split: if_splits)

lemma seq_sound:
  "(m, r) \<in> set (seq p q s) \<Longrightarrow> \<exists>m1 r1 m2. (m1, r1) \<in> set (p s) \<and> (m2, r) \<in> set (q r1) \<and> m = m1 @ m2"
  by (auto simp: seq_def)

lemma opt_sound: "(m, r) \<in> set (opt p s) \<Longrightarrow> (m, r) \<in> set (p s) \<or> (m = [] \<and> r = s)"
  by (auto simp: opt_def)

lemma star_sound: "(m, r) \<in> set (star_cls P s) \<Longrightarrow> s = m @ r \<and> list_all P m"
  by (induction s arbitrary: m r) (auto split: if_splits)

lemma plus_sound: "(m, r) \<in> set (plus_cls P s) \<Longrightarrow> s = m @ r \<and> list_all P m \<and> m \<noteq> []"
  unfolding plus_cls_def
  by (auto dest!: seq_sound cls_sound star_sound)

lemma upto_sound:
  "(m, r) \<in> set (rep_upto n (cls P) s) \<Longrightarrow> s = m @ r \<and> list_all P m \<and> length m \<le> n"
proof (induction n arbitrary: m r s)
  case 0
  then show ?case by simp
next
  case (Suc n)
  from Suc.prems have "(m, r) \<in> set (seq (cls P) (rep_upto n (cls P)) s) \<or> (m = [] \<and> r = s)"
    by (auto dest: opt_sound)
  then show ?case
  proof
    assume "(m, r) \<in> set (seq (cls P) (rep_upto n (cls P)) s)"
    then obtain m1 r1 m2 where a: "(m1, r1) \<in> set (cls P s)" "(m2, r) \<in> set (rep_upto n (cls P) r1)" "m = m1 @ m2"
      by (blast dest: seq_sound)
    from a(1) obtain c where c: "m1 = [c]" "s = c # r1" "P c" by (blast dest: cls_sound)
    from Suc.IH [OF a(2)] have "r1 = m2 @ r" "list_all P m2" "length m2 \<le> n" by auto
    with a c show ?thesis by simp
  qed simp
qed

lemma digits_sound:
  "(m, r) \<in> set (digits_1_to n s) \<Longrightarrow>
     s = m @ r \<and> list_all is_digit m \<and> 1 \<le> length m \<and> length m \<le> Suc (n - 1)"
  unfolding digits_1_to_def
  by (auto dest!: seq_sound cls_sound upto_sound)

lemma parts_sound:
  assumes "(g1, g2, g3) \<in> set (parts_matches s)"
  shows "g1 \<noteq> [] \<and> list_all is_upper g1 \<and> list_all is_digit g2 \<and> 1 \<le> length g2 \<and> length g2 \<le> 2
         \<and> list_all is_digit g3 \<and> 1 \<le> length g3 \<and> length g3 \<le> 4"
proof -
  from assms obtain r1 r2 r3 r4 r5 where
    "(g1, r1) \<in> set (plus_cls is_upper s)" "(g2, r3) \<in> set (digits_1_to 2 r2)"
    "(g3, r5) \<in> set (digits_1_to 4 r4)"
    by (auto simp: parts_matches_def)
  then show ?thesis
    by (auto dest!: plus_sound digits_sound)
qed

lemma re_match_parts_sound:
  "re_match_parts s = Some (g1, g2, g3) \<Longrightarrow>
     g1 \<noteq> [] \<and> list_all is_upper g1 \<and> list_all is_digit g2 \<and> 1 \<le> length g2 \<and> length g2 \<le> 2
         \<and> list_all is_digit g3 \<and> 1 \<le> length g3 \<and> length g3 \<le> 4"
  using parts_sound [of g1 g2 g3 s]
  by (auto simp: re_match_parts_def split: list.splits)

section \<open>Properties of the normalisation\<close>

text \<open>
  Claim C10. The six letter-to-digit replacements of lines 126 and 127 never change a numeric
  segment: the groups they are applied to hold digits only, and so does their zero-padding.
  The variant of \<^verbatim>\<open>autocorrect_match\<close> without the replacements returns the same string as
  \<^verbatim>\<open>autocorrect_match\<close> on every input.
\<close>

theorem confusion_replacements_are_redundant:
  "autocorrect_match_without_replace m = autocorrect_match m
   \<and> (\<forall>pfx g2 g3. re_match_parts (fix_prefix (replace m CHR '' '' '''')) = Some (pfx, g2, g3) \<longrightarrow>
         confusion_fix (zfill g2 2) = zfill g2 2 \<and> confusion_fix (zfill g3 4) = zfill g3 4)"
proof -
  have fixed: "confusion_fix (zfill g2 2) = zfill g2 2 \<and> confusion_fix (zfill g3 4) = zfill g3 4"
    if "re_match_parts s = Some (pfx, g2, g3)" for s pfx g2 g3
  proof -
    from re_match_parts_sound [OF that] have "list_all is_digit g2" "list_all is_digit g3"
      by simp_all
    then show ?thesis
      by (simp add: confusion_fix_digits zfill_digits_all)
  qed
  have "autocorrect_match_without_replace m = autocorrect_match m"
  proof (cases "re_match_parts (fix_prefix (replace m CHR '' '' ''''))")
    case None
    then show ?thesis
      by (simp add: autocorrect_match_def autocorrect_match_without_replace_def)
  next
    case (Some g)
    obtain pfx g2 g3 where g: "g = (pfx, g2, g3)" by (cases g)
    from fixed Some g show ?thesis
      by (simp add: autocorrect_match_def autocorrect_match_without_replace_def)
  qed
  with fixed show ?thesis by blast
qed

theorem confusion_replacements_are_redundant_witness:
  "re_match_parts (fix_prefix (replace ''P0 -7-31'' CHR '' '' '''')) = Some (''PO'', ''7'', ''31'')
   \<and> confusion_fix (zfill ''7'' 2) = zfill ''7'' 2 \<and> confusion_fix (zfill ''31'' 4) = zfill ''31'' 4
   \<and> autocorrect_match_without_replace ''P0 -7-31'' = autocorrect_match ''P0 -7-31''"
proof -
  have h: "re_match_parts (fix_prefix (replace ''P0 -7-31'' CHR '' '' '''')) = Some (''PO'', ''7'', ''31'')"
    by code_simp
  from confusion_replacements_are_redundant [of "''P0 -7-31''"] h show ?thesis
    by blast
qed

text \<open>
  Claim C7. When the prefix found by the re-parse is one of PO, SPO, RNWS, SGR and SSR, the
  result is the prefix, a dash, a two-character segment whose first character is \<^verbatim>\<open>2\<close>, a
  dash and the four-character last segment, whatever digits the input had in the middle
  segment.
\<close>

theorem locked_prefix_forces_two:
  assumes "re_match_parts (fix_prefix (replace m CHR '' '' '''')) = Some (pfx, g2, g3)"
    and "pfx \<in> set locked_prefixes"
  shows "autocorrect_match m = pfx @ ''-'' @ (CHR ''2'' # drop 1 (zfill g2 2)) @ ''-'' @ zfill g3 4
         \<and> length (CHR ''2'' # drop 1 (zfill g2 2)) = 2 \<and> length (zfill g3 4) = 4
         \<and> CHR ''-'' \<notin> set pfx"
proof -
  from re_match_parts_sound [OF assms(1)]
  have d: "list_all is_digit g2" "length g2 \<le> 2" "list_all is_digit g3" "length g3 \<le> 4"
    and u: "list_all is_upper pfx"
    by simp_all
  from u have "CHR ''-'' \<notin> set pfx"
    using upper_not_special by (auto simp: list_all_iff)
  moreover have "length (zfill g2 2) = 2" "length (zfill g3 4) = 4"
    using d by (simp_all add: zfill_digits_length)
  moreover have "autocorrect_match m = pfx @ ''-'' @ (CHR ''2'' # drop 1 (zfill g2 2)) @ ''-'' @ zfill g3 4"
    using assms d by (simp add: autocorrect_match_def confusion_fix_digits zfill_digits_all)
  ultimately show ?thesis by simp
qed

theorem locked_prefix_forces_two_witness:
  "re_match_parts (fix_prefix (replace ''SSR 9-7-31'' CHR '' '' '''')) = Some (''SSR'', ''9'', ''7'')
   \<and> ''SSR'' \<in> set locked_prefixes
   \<and> autocorrect_match ''SSR 9-7-31'' = ''SSR-29-0007''"
proof -
  have h: "re_match_parts (fix_prefix (replace ''SSR 9-7-31'' CHR '' '' '''')) = Some (''SSR'', ''9'', ''7'')"
    by code_simp
  have l: "''SSR'' \<in> set locked_prefixes"
    by code_simp
  have z: "zfill ''9'' 2 = ''09''" "zfill ''7'' 4 = ''0007''"
    by code_simp+
  from locked_prefix_forces_two [OF h l] show ?thesis
    using h l by (simp add: z)
qed

section \<open>Canonical inputs\<close>

lemma star_cls_head:
  "list_all P L \<Longrightarrow> s = [] \<or> \<not> P (hd s) \<Longrightarrow> \<exists>rs. star_cls P (L @ s) = (L, s) # rs"
proof (induction L)
  case Nil
  then show ?case by (cases s) auto
next
  case (Cons c L)
  then obtain rs where "star_cls P (L @ s) = (L, s) # rs" by auto
  with Cons.prems show ?case by simp
qed

lemma plus_cls_head:
  assumes "L \<noteq> []" "list_all P L" "s = [] \<or> \<not> P (hd s)"
  shows "\<exists>rs. plus_cls P (L @ s) = (L, s) # rs"
proof -
  from assms(1) obtain c L' where L: "L = c # L'" by (cases L) auto
  with assms have "list_all P L'" "P c" by simp_all
  from star_cls_head [OF this(1) assms(3)] obtain rs where
    "star_cls P (L' @ s) = (L', s) # rs" by blast
  with L \<open>P c\<close> show ?thesis
    by (simp add: plus_cls_def seq_def cls_def)
qed

lemma digits_2_head:
  "is_digit a \<Longrightarrow> is_digit b \<Longrightarrow> digits_1_to 2 (a # b # s) = [([a, b], s), ([a], b # s)]"
  by (simp add: digits_1_to_def seq_def cls_def opt_def numeral_2_eq_2)

lemma digits_4_head:
  "is_digit a \<Longrightarrow> is_digit b \<Longrightarrow> is_digit c \<Longrightarrow> is_digit d \<Longrightarrow>
   \<exists>rs. digits_1_to 4 (a # b # c # d # s) = ([a, b, c, d], s) # rs"
  by (simp add: digits_1_to_def seq_def cls_def opt_def eval_nat_numeral)

lemma opt_dash_head: "opt (chr CHR ''-'') (CHR ''-'' # s) = [(''-'', s), ([], CHR ''-'' # s)]"
  by (simp add: opt_def chr_def cls_def)

lemma re_match_parts_canonical:
  assumes "L \<noteq> []" "list_all is_upper L"
    and "is_digit a" "is_digit b" "is_digit c" "is_digit d" "is_digit e" "is_digit f"
  shows "re_match_parts (L @ CHR ''-'' # a # b # CHR ''-'' # c # d # e # f # t)
         = Some (L, [a, b], [c, d, e, f])"
proof -
  have "\<not> is_upper (hd (CHR ''-'' # a # b # CHR ''-'' # c # d # e # f # t))"
    by (simp add: is_upper_def)
  with plus_cls_head [OF assms(1,2), of "CHR ''-'' # a # b # CHR ''-'' # c # d # e # f # t"]
  obtain rs where p: "plus_cls is_upper (L @ CHR ''-'' # a # b # CHR ''-'' # c # d # e # f # t)
      = (L, CHR ''-'' # a # b # CHR ''-'' # c # d # e # f # t) # rs"
    by auto
  from digits_4_head [OF assms(5-8), of t] obtain rs4 where
    d4: "digits_1_to 4 (c # d # e # f # t) = ([c, d, e, f], t) # rs4" by blast
  show ?thesis
    unfolding re_match_parts_def parts_matches_def p
    by (simp add: opt_dash_head digits_2_head [OF assms(3,4)] d4)
qed

lemma startswith_dash:
  "CHR ''-'' \<notin> set L \<Longrightarrow> CHR ''-'' \<notin> set M \<Longrightarrow>
   startswith (L @ CHR ''-'' # t) (M @ ''-'') = (L = M)"
proof (induction L arbitrary: M)
  case Nil
  then show ?case by (cases M) (auto simp: startswith_def)
next
  case (Cons l L)
  show ?case
  proof (cases M)
    case Nil
    with Cons.prems show ?thesis by (auto simp: startswith_def)
  next
    case (Cons m M')
    with Cons.prems Cons.IH [of M'] show ?thesis
      by (auto simp: startswith_def)
  qed
qed

lemma upper_no_dash: "list_all is_upper L \<Longrightarrow> CHR ''-'' \<notin> set L"
  using upper_not_special by (auto simp: list_all_iff)

lemma fix_prefix_letters:
  assumes "list_all is_upper L"
  shows "fix_prefix (L @ CHR ''-'' # t) = fixed_letters L @ CHR ''-'' # t"
proof -
  have nd: "CHR ''-'' \<notin> set L" using assms by (rule upper_no_dash)
  have a: "startswith (L @ CHR ''-'' # t) ''P0-'' = (L = ''P0'')"
    using startswith_dash [OF nd, of "''P0''" t] by simp
  have b: "startswith (L @ CHR ''-'' # t) ''PQ-'' = (L = ''PQ'')"
    using startswith_dash [OF nd, of "''PQ''" t] by simp
  have c: "startswith (L @ CHR ''-'' # t) ''RNW-'' = (L = ''RNW'')"
    using startswith_dash [OF nd, of "''RNW''" t] by simp
  have d: "startswith (L @ CHR ''-'' # t) ''5P0-'' = (L = ''5P0'')"
    using startswith_dash [OF nd, of "''5P0''" t] by simp
  have e: "startswith (L @ CHR ''-'' # t) ''56R-'' = (L = ''56R'')"
    using startswith_dash [OF nd, of "''56R''" t] by simp
  have n: "L \<noteq> ''P0''" "L \<noteq> ''5P0''" "L \<noteq> ''56R''"
    using assms by (auto simp: is_upper_def)
  show ?thesis
    unfolding fix_prefix_def a b c d e using n
    by (auto simp: fixed_letters_def)
qed

lemma fixed_letters_upper: "L \<noteq> [] \<Longrightarrow> list_all is_upper L \<Longrightarrow>
  fixed_letters L \<noteq> [] \<and> list_all is_upper (fixed_letters L)"
  by (auto simp: fixed_letters_def is_upper_def)

lemma fixed_letters_idem: "fixed_letters (fixed_letters L) = fixed_letters L"
  by (simp add: fixed_letters_def)

lemma autocorrect_match_canonical_shape:
  assumes "L \<noteq> []" "list_all is_upper L"
    and "is_digit a" "is_digit b" "is_digit c" "is_digit d" "is_digit e" "is_digit f"
  shows "autocorrect_match (L @ CHR ''-'' # a # b # CHR ''-'' # [c, d, e, f])
         = fixed_letters L @ CHR ''-'' #
             (if fixed_letters L \<in> set locked_prefixes then CHR ''2'' else a) # b # CHR ''-'' # [c, d, e, f]"
proof -
  let ?x = "L @ CHR ''-'' # a # b # CHR ''-'' # [c, d, e, f]"
  have "CHR '' '' \<notin> set ?x"
    using assms upper_not_special digit_not_special by (auto simp: list_all_iff)
  then have sp: "replace ?x CHR '' '' '''' = ?x" by (rule replace_absent)
  have fp: "fix_prefix ?x = fixed_letters L @ CHR ''-'' # a # b # CHR ''-'' # [c, d, e, f]"
    using fix_prefix_letters [OF assms(2)] by simp
  from fixed_letters_upper [OF assms(1,2)]
  have u: "fixed_letters L \<noteq> []" "list_all is_upper (fixed_letters L)" by simp_all
  have rm: "re_match_parts (fixed_letters L @ CHR ''-'' # a # b # CHR ''-'' # [c, d, e, f])
            = Some (fixed_letters L, [a, b], [c, d, e, f])"
    using re_match_parts_canonical [OF u assms(3-8), of "[]"] by simp
  have z: "zfill [a, b] 2 = [a, b]" "zfill [c, d, e, f] 4 = [c, d, e, f]"
    by (simp_all add: zfill_def)
  have cf: "confusion_fix [a, b] = [a, b]" "confusion_fix [c, d, e, f] = [c, d, e, f]"
    using assms by (simp_all add: confusion_fix_digits)
  show ?thesis
    unfolding autocorrect_match_def sp fp
    by (simp add: rm z cf)
qed

lemma is_canonical_shape:
  assumes "is_canonical x"
  shows "\<exists>L a b c d e f. x = L @ CHR ''-'' # a # b # CHR ''-'' # [c, d, e, f] \<and> L \<noteq> []
           \<and> list_all is_upper L \<and> is_digit a \<and> is_digit b \<and> is_digit c \<and> is_digit d
           \<and> is_digit e \<and> is_digit f"
proof -
  let ?L = "takeWhile is_upper x" and ?r = "dropWhile is_upper x"
  have x: "x = ?L @ ?r" by simp
  have u: "list_all is_upper ?L"
    by (auto simp: list_all_iff dest: set_takeWhileD)
  from assms have c: "?L \<noteq> []" "length ?r = 8" "?r ! 0 = CHR ''-''" "is_digit (?r ! 1)"
    "is_digit (?r ! 2)" "?r ! 3 = CHR ''-''" "list_all is_digit (drop 4 ?r)"
    by (simp_all add: is_canonical_def Let_def)
  from c(2) obtain r0 r1 r2 r3 r4 r5 r6 r7 where r: "?r = [r0, r1, r2, r3, r4, r5, r6, r7]"
    by (auto simp: eval_nat_numeral length_Suc_conv)
  from c(3-7) have "r0 = CHR ''-''" "is_digit r1" "is_digit r2" "r3 = CHR ''-''"
    "is_digit r4" "is_digit r5" "is_digit r6" "is_digit r7"
    unfolding r by simp_all
  with x r u c(1) show ?thesis by metis
qed

text \<open>
  Claim C6. On every string of the canonical form, applying \<^verbatim>\<open>autocorrect_match\<close> twice gives
  the same result as applying it once.
\<close>

theorem autocorrect_match_idempotent_on_canonical:
  assumes "is_canonical x"
  shows "autocorrect_match (autocorrect_match x) = autocorrect_match x"
proof -
  from is_canonical_shape [OF assms] obtain L a b c d e f where
    x: "x = L @ CHR ''-'' # a # b # CHR ''-'' # [c, d, e, f]" and L: "L \<noteq> []" "list_all is_upper L"
    and dg: "is_digit a" "is_digit b" "is_digit c" "is_digit d" "is_digit e" "is_digit f"
    by blast
  let ?L = "fixed_letters L"
  let ?a = "if ?L \<in> set locked_prefixes then CHR ''2'' else a"
  have first: "autocorrect_match x = ?L @ CHR ''-'' # ?a # b # CHR ''-'' # [c, d, e, f]"
    unfolding x by (rule autocorrect_match_canonical_shape [OF L dg])
  from fixed_letters_upper [OF L] have u: "?L \<noteq> []" "list_all is_upper ?L" by simp_all
  have da: "is_digit ?a" using dg(1) by (simp add: zero_digit)
  have "autocorrect_match (?L @ CHR ''-'' # ?a # b # CHR ''-'' # [c, d, e, f])
        = ?L @ CHR ''-'' # ?a # b # CHR ''-'' # [c, d, e, f]"
    using autocorrect_match_canonical_shape [OF u da dg(2-6)]
    by (simp add: fixed_letters_idem)
  with first show ?thesis by simp
qed

theorem autocorrect_match_idempotent_on_canonical_witness:
  "is_canonical ''PQ-70-0002''
   \<and> autocorrect_match ''PQ-70-0002'' = ''PO-20-0002''
   \<and> autocorrect_match (autocorrect_match ''PQ-70-0002'') = autocorrect_match ''PQ-70-0002''"
proof -
  have h: "is_canonical ''PQ-70-0002''" by code_simp
  have v: "autocorrect_match ''PQ-70-0002'' = ''PO-20-0002''" by code_simp
  from autocorrect_match_idempotent_on_canonical [OF h] h v show ?thesis by simp
qed

section \<open>Candidate codes\<close>

lemma alt_sound: "(m, r) \<in> set (alt p q s) \<Longrightarrow> (m, r) \<in> set (p s) \<or> (m, r) \<in> set (q s)"
  by (auto simp: alt_def)

lemma lit_ci_sound:
  "(m, r) \<in> set (lit_ci x s) \<Longrightarrow> s = m @ r \<and> upper m = upper x"
proof (induction x arbitrary: m r s)
  case Nil
  then show ?case by (simp add: upper_def)
next
  case (Cons c x)
  from Cons.prems obtain m1 r1 m2 where
    a: "(m1, r1) \<in> set (cls (\<lambda>d. upper_char d = upper_char c) s)"
       "(m2, r) \<in> set (lit_ci x r1)" "m = m1 @ m2"
    by (auto dest: seq_sound)
  from a(1) obtain d where d: "m1 = [d]" "s = d # r1" "upper_char d = upper_char c"
    by (blast dest: cls_sound)
  from Cons.IH [OF a(2)] have "r1 = m2 @ r" "upper m2 = upper x" by simp_all
  with a(3) d show ?case by (simp add: upper_def)
qed

lemma lit_ci_token:
  assumes "(m, r) \<in> set (lit_ci x s)" "upper x = x" "x \<in> set candidate_tokens"
  shows "s = m @ r \<and> upper m \<in> set candidate_tokens"
  using lit_ci_sound [OF assms(1)] assms(2,3) by simp

lemma upper_tokens:
  "upper ''P0'' = ''P0''" "upper ''PO'' = ''PO''" "upper ''SPO'' = ''SPO''"
  "upper ''RNWS'' = ''RNWS''" "upper ''SGR'' = ''SGR''" "upper ''SSR'' = ''SSR''"
  by code_simp+

lemma token_sound:
  assumes "(m, r) \<in> set (token_matcher s)"
  shows "s = m @ r \<and> upper m \<in> set candidate_tokens"
proof -
  from assms have "(m, r) \<in> set (lit_ci ''P0'' s) \<or> (m, r) \<in> set (lit_ci ''PO'' s)
     \<or> (m, r) \<in> set (lit_ci ''SPO'' s) \<or> (m, r) \<in> set (lit_ci ''RNWS'' s)
     \<or> (m, r) \<in> set (lit_ci ''SGR'' s) \<or> (m, r) \<in> set (lit_ci ''SSR'' s)"
    unfolding token_matcher_def by (blast dest: alt_sound)
  then show ?thesis
  proof (elim disjE)
    assume "(m, r) \<in> set (lit_ci ''P0'' s)"
    then show ?thesis
      by (rule lit_ci_token) (simp_all only: upper_tokens candidate_tokens_def list.set insert_iff simp_thms)
  next
    assume "(m, r) \<in> set (lit_ci ''PO'' s)"
    then show ?thesis
      by (rule lit_ci_token) (simp_all only: upper_tokens candidate_tokens_def list.set insert_iff simp_thms)
  next
    assume "(m, r) \<in> set (lit_ci ''SPO'' s)"
    then show ?thesis
      by (rule lit_ci_token) (simp_all only: upper_tokens candidate_tokens_def list.set insert_iff simp_thms)
  next
    assume "(m, r) \<in> set (lit_ci ''RNWS'' s)"
    then show ?thesis
      by (rule lit_ci_token) (simp_all only: upper_tokens candidate_tokens_def list.set insert_iff simp_thms)
  next
    assume "(m, r) \<in> set (lit_ci ''SGR'' s)"
    then show ?thesis
      by (rule lit_ci_token) (simp_all only: upper_tokens candidate_tokens_def list.set insert_iff simp_thms)
  next
    assume "(m, r) \<in> set (lit_ci ''SSR'' s)"
    then show ?thesis
      by (rule lit_ci_token) (simp_all only: upper_tokens candidate_tokens_def list.set insert_iff simp_thms)
  qed
qed

lemma opt_chr_sound:
  "(m, r) \<in> set (opt (chr x) s) \<Longrightarrow> s = m @ r \<and> (m = [] \<or> m = [x])"
  by (auto simp: chr_def dest!: opt_sound cls_sound)

lemma opt_digit_sound:
  "(m, r) \<in> set (opt (cls is_digit) s) \<Longrightarrow> s = m @ r \<and> (m = [] \<or> (\<exists>x. m = [x] \<and> is_digit x))"
  by (auto dest!: opt_sound cls_sound)

lemma chr_sound: "(m, r) \<in> set (chr x s) \<Longrightarrow> s = m @ r \<and> m = [x]"
  by (auto simp: chr_def dest!: cls_sound)

lemma candidate_shape:
  assumes "fullmatch candidate_pattern s"
  shows "\<exists>tok sp d dash g2 g3. s = tok @ sp @ d @ dash @ g2 @ ''-'' @ g3
           \<and> upper tok \<in> set candidate_tokens
           \<and> (sp = [] \<or> sp = '' '')
           \<and> (d = [] \<or> (\<exists>x. d = [x] \<and> is_digit x))
           \<and> (dash = [] \<or> dash = ''-'')
           \<and> g2 \<noteq> [] \<and> list_all is_digit g2 \<and> g3 \<noteq> [] \<and> list_all is_digit g3"
proof -
  from assms obtain m where m: "(m, []) \<in> set (candidate_pattern s)"
    by (auto simp: fullmatch_def list_ex_iff)
  have cp: "candidate_pattern = seq token_matcher
    (seq (opt (chr CHR '' ''))
    (seq (opt (cls is_digit))
    (seq (opt (chr CHR ''-''))
    (seq (digits_1_to 2)
    (seq (chr CHR ''-'')
         (digits_1_to 4))))))"
    by (simp add: candidate_pattern_def token_matcher_def)
  from m obtain tok r0 m0 where 0: "(tok, r0) \<in> set (token_matcher s)"
    and "(m0, []) \<in> set ((seq (opt (chr CHR '' ''))
    (seq (opt (cls is_digit))
    (seq (opt (chr CHR ''-''))
    (seq (digits_1_to 2)
    (seq (chr CHR ''-'')
         (digits_1_to 4)))))) r0)"
    unfolding cp by (blast dest: seq_sound)
  then obtain sp r1 m1 where 1: "(sp, r1) \<in> set (opt (chr CHR '' '') r0)"
    and "(m1, []) \<in> set ((seq (opt (cls is_digit))
    (seq (opt (chr CHR ''-''))
    (seq (digits_1_to 2)
    (seq (chr CHR ''-'')
         (digits_1_to 4))))) r1)"
    by (blast dest: seq_sound)
  then obtain d r2 m2 where 2: "(d, r2) \<in> set (opt (cls is_digit) r1)"
    and "(m2, []) \<in> set ((seq (opt (chr CHR ''-''))
    (seq (digits_1_to 2)
    (seq (chr CHR ''-'')
         (digits_1_to 4)))) r2)"
    by (blast dest: seq_sound)
  then obtain dash r3 m3 where 3: "(dash, r3) \<in> set (opt (chr CHR ''-'') r2)"
    and "(m3, []) \<in> set ((seq (digits_1_to 2)
    (seq (chr CHR ''-'')
         (digits_1_to 4))) r3)"
    by (blast dest: seq_sound)
  then obtain g2 r4 m4 where 4: "(g2, r4) \<in> set (digits_1_to 2 r3)"
    and "(m4, []) \<in> set ((seq (chr CHR ''-'') (digits_1_to 4)) r4)"
    by (blast dest: seq_sound)
  then obtain h r5 g3 where 5: "(h, r5) \<in> set (chr CHR ''-'' r4)"
    and 6: "(g3, []) \<in> set (digits_1_to 4 r5)"
    by (blast dest: seq_sound)
  from token_sound [OF 0] have t: "s = tok @ r0" "upper tok \<in> set candidate_tokens" by simp_all
  from opt_chr_sound [OF 1] have a1: "r0 = sp @ r1" "sp = [] \<or> sp = '' ''" by simp_all
  from opt_digit_sound [OF 2] have a2: "r1 = d @ r2" "d = [] \<or> (\<exists>x. d = [x] \<and> is_digit x)"
    by simp_all
  from opt_chr_sound [OF 3] have a3: "r2 = dash @ r3" "dash = [] \<or> dash = ''-''" by simp_all
  from digits_sound [OF 4] have a4: "r3 = g2 @ r4" "list_all is_digit g2" "g2 \<noteq> []" by auto
  from chr_sound [OF 5] have a5: "r4 = ''-'' @ r5" by simp
  from digits_sound [OF 6] have a6: "r5 = g3" "list_all is_digit g3" "g3 \<noteq> []" by auto
  have "s = tok @ sp @ d @ dash @ g2 @ ''-'' @ g3"
    using t(1) a1(1) a2(1) a3(1) a4(1) a5 a6(1) by simp
  with t(2) a1(2) a2(2) a3(2) a4(2,3) a6(2,3) show ?thesis by blast
qed

lemma replace_append: "replace (a @ b) old new = replace a old new @ replace b old new"
  by (simp add: replace_def)

lemma upper_append: "upper (a @ b) = upper a @ upper b"
  by (simp add: upper_def)

lemma upper_char_digit: "is_digit c \<Longrightarrow> upper_char c = c"
proof -
  have "\<forall>c \<in> set ''0123456789''. upper_char c = c"
    by code_simp
  then show "is_digit c \<Longrightarrow> upper_char c = c"
    unfolding is_digit_def by blast
qed

lemma upper_digits: "list_all is_digit g \<Longrightarrow> upper g = g"
  by (induction g) (simp_all add: upper_def upper_char_digit)

lemma upper_space_dash: "upper '' '' = '' ''" "upper ''-'' = ''-''"
  by code_simp+

lemma strip_digits: "list_all is_digit g \<Longrightarrow> replace g CHR '' '' '''' = g"
  using digit_not_special by (intro replace_absent) (auto simp: list_all_iff)

lemma rep_upto_empty: "([], s) \<in> set (rep_upto k p s)"
  by (cases k) (simp_all add: opt_def)

lemma digits_one: "is_digit p \<Longrightarrow> ([p], t) \<in> set (digits_1_to n (p # t))"
  using rep_upto_empty [of t "n - 1" "cls is_digit"]
  by (force simp: digits_1_to_def seq_def cls_def)

lemma opt_dash_mem: "d = [] \<or> d = ''-'' \<Longrightarrow> (d, t) \<in> set (opt (chr CHR ''-'') (d @ t))"
  by (auto simp: opt_def chr_def cls_def)

lemma in_concat_map: "y \<in> set xs \<Longrightarrow> x \<in> set (f y) \<Longrightarrow> x \<in> set (concat (map f xs))"
  by auto

lemma in_map: "y \<in> set xs \<Longrightarrow> x = f y \<Longrightarrow> x \<in> set (map f xs)"
  by auto

lemma parts_matches_intro:
  assumes "(g1, r1) \<in> set (plus_cls is_upper s)"
    and "(x1, r2) \<in> set (opt (chr CHR ''-'') r1)"
    and "(g2, r3) \<in> set (digits_1_to 2 r2)"
    and "(x2, r4) \<in> set (opt (chr CHR ''-'') r3)"
    and "(g3, r5) \<in> set (digits_1_to 4 r4)"
  shows "(g1, g2, g3) \<in> set (parts_matches s)"
  unfolding parts_matches_def
  apply (rule in_concat_map [OF assms(1)])
  apply (simp only: prod.case)
  apply (rule in_concat_map [OF assms(2)])
  apply (simp only: prod.case)
  apply (rule in_concat_map [OF assms(3)])
  apply (simp only: prod.case)
  apply (rule in_concat_map [OF assms(4)])
  apply (simp only: prod.case)
  apply (rule in_map [OF assms(5)])
  apply (simp only: prod.case)
  done

lemma parts_matches_exist:
  assumes "L \<noteq> []" "list_all is_upper L" "d1 = [] \<or> d1 = ''-''" "is_digit p"
    "d2 = [] \<or> d2 = ''-''" "is_digit q"
  shows "parts_matches (L @ d1 @ p # d2 @ q # t) \<noteq> []"
proof -
  let ?r = "d1 @ p # d2 @ q # t"
  have "hd ?r = CHR ''-'' \<or> hd ?r = p"
    using assms(3) by auto
  moreover have "\<not> is_upper CHR ''-''"
    using upper_not_special by blast
  moreover have "\<not> is_upper p"
    using assms(4) upper_not_digit by blast
  ultimately have "\<not> is_upper (hd ?r)"
    by metis
  with plus_cls_head [OF assms(1,2), of ?r] have 1: "(L, ?r) \<in> set (plus_cls is_upper (L @ ?r))"
    by auto
  have 2: "(d1, p # d2 @ q # t) \<in> set (opt (chr CHR ''-'') ?r)"
    using opt_dash_mem [OF assms(3)] by simp
  have 3: "([p], d2 @ q # t) \<in> set (digits_1_to 2 (p # d2 @ q # t))"
    using assms(4) by (rule digits_one)
  have 4: "(d2, q # t) \<in> set (opt (chr CHR ''-'') (d2 @ q # t))"
    using opt_dash_mem [OF assms(5)] by simp
  have 5: "([q], t) \<in> set (digits_1_to 4 (q # t))"
    using assms(6) by (rule digits_one)
  from parts_matches_intro [OF 1 2 3 4 5] show ?thesis by auto
qed

lemma tail_shape:
  assumes "d = [] \<or> (\<exists>x. d = [x] \<and> is_digit x)" "dash = [] \<or> dash = ''-''"
    "g2 \<noteq> []" "list_all is_digit g2" "g3 \<noteq> []" "list_all is_digit g3"
  shows "\<exists>d1 p d2 q t. d @ dash @ g2 @ ''-'' @ g3 = d1 @ p # d2 @ q # t
           \<and> (d1 = [] \<or> d1 = ''-'') \<and> is_digit p \<and> (d2 = [] \<or> d2 = ''-'') \<and> is_digit q
           \<and> (d1 = ''-'' \<longleftrightarrow> d = [] \<and> dash = ''-'')"
proof -
  from assms(3,4) obtain a g2' where g2: "g2 = a # g2'" "is_digit a" "list_all is_digit g2'"
    by (cases g2) auto
  from assms(5,6) obtain b g3' where g3: "g3 = b # g3'" "is_digit b"
    by (cases g3) auto
  have second: "\<exists>d2 q t. g2' @ ''-'' @ g3 = d2 @ q # t \<and> (d2 = [] \<or> d2 = ''-'') \<and> is_digit q"
  proof (cases g2')
    case Nil
    with g3 show ?thesis by (intro exI [of _ "''-''"] exI [of _ b] exI [of _ g3']) simp
  next
    case (Cons y ys)
    with g2(3) show ?thesis by (intro exI [of _ "[]"] exI [of _ y] exI [of _ "ys @ ''-'' @ g3"]) simp
  qed
  then obtain d2 q t where s: "g2' @ ''-'' @ g3 = d2 @ q # t" "d2 = [] \<or> d2 = ''-''" "is_digit q"
    by blast
  from assms(1) show ?thesis
  proof
    assume d: "d = []"
    show ?thesis
      using assms(2) d g2 s
      by (intro exI [of _ dash] exI [of _ a] exI [of _ d2] exI [of _ q] exI [of _ t]) auto
  next
    assume "\<exists>x. d = [x] \<and> is_digit x"
    then obtain x where x: "d = [x]" "is_digit x" by blast
    from assms(2) show ?thesis
    proof
      assume "dash = []"
      with x g2 show ?thesis
        by (intro exI [of _ "[]"] exI [of _ x] exI [of _ "[]"] exI [of _ a]
            exI [of _ "g2' @ ''-'' @ g3"]) simp
    next
      assume "dash = ''-''"
      with x g2 show ?thesis
        by (intro exI [of _ "[]"] exI [of _ x] exI [of _ "''-''"] exI [of _ a]
            exI [of _ "g2' @ ''-'' @ g3"]) simp
    qed
  qed
qed

lemma is_canonical_build:
  assumes "g1 \<noteq> []" "list_all is_upper g1" "is_digit x" "is_digit y" "length l = 4"
    "list_all is_digit l"
  shows "is_canonical (g1 @ CHR ''-'' # x # y # CHR ''-'' # l)"
proof -
  have nu: "\<not> is_upper CHR ''-''" using upper_not_special by blast
  have u: "\<And>c. c \<in> set g1 \<Longrightarrow> is_upper c" using assms(2) by (simp add: list_all_iff)
  have t: "takeWhile is_upper (g1 @ CHR ''-'' # x # y # CHR ''-'' # l) = g1"
    using u nu by (simp add: takeWhile_append2)
  have d: "dropWhile is_upper (g1 @ CHR ''-'' # x # y # CHR ''-'' # l) = CHR ''-'' # x # y # CHR ''-'' # l"
    using u nu by (simp add: dropWhile_append2)
  show ?thesis
    unfolding is_canonical_def t d Let_def using assms by simp
qed

lemma two_digits:
  assumes "list_all is_digit g" "length g = 2"
  shows "\<exists>x y. g = [x, y] \<and> is_digit x \<and> is_digit y"
proof -
  from assms(2) obtain x y where "g = [x, y]"
    by (auto simp: eval_nat_numeral length_Suc_conv)
  with assms(1) show ?thesis by simp
qed

lemma autocorrect_match_parsed:
  assumes "re_match_parts (fix_prefix (replace s CHR '' '' '''')) = Some (g1, g2, g3)"
  shows "is_canonical (autocorrect_match s)"
proof -
  from re_match_parts_sound [OF assms]
  have g: "g1 \<noteq> []" "list_all is_upper g1" "list_all is_digit g2" "length g2 \<le> 2"
    "list_all is_digit g3" "length g3 \<le> 4"
    by simp_all
  have z2: "list_all is_digit (zfill g2 2)" "length (zfill g2 2) = 2"
    using g by (simp_all add: zfill_digits_all zfill_digits_length)
  have z4: "list_all is_digit (zfill g3 4)" "length (zfill g3 4) = 4"
    using g by (simp_all add: zfill_digits_all zfill_digits_length)
  from two_digits [OF z2] obtain x y where xy: "zfill g2 2 = [x, y]" "is_digit x" "is_digit y"
    by blast
  let ?x = "if g1 \<in> set locked_prefixes then CHR ''2'' else x"
  have dx: "is_digit ?x" using xy(2) by (simp add: zero_digit)
  have "autocorrect_match s = g1 @ CHR ''-'' # ?x # y # CHR ''-'' # zfill g3 4"
    using assms g xy by (simp add: autocorrect_match_def confusion_fix_digits z4(1))
  with is_canonical_build [OF g(1,2) dx xy(3) z4(2,1)] show ?thesis by simp
qed

lemma fix_prefix_token:
  "T \<in> set locked_prefixes \<Longrightarrow> fix_prefix (T @ R) = T @ R"
  by (auto simp: locked_prefixes_def fix_prefix_def startswith_def)

lemma locked_upper: "T \<in> set locked_prefixes \<Longrightarrow> T \<noteq> [] \<and> list_all is_upper T"
  by (auto simp: locked_prefixes_def is_upper_def)

lemma strip_tokens: "T \<in> set candidate_tokens \<Longrightarrow> replace T CHR '' '' '''' = T"
proof -
  have "\<forall>T \<in> set candidate_tokens. replace T CHR '' '' '''' = T" by code_simp
  then show "T \<in> set candidate_tokens \<Longrightarrow> replace T CHR '' '' '''' = T" by blast
qed

lemma tokens_split: "T \<in> set candidate_tokens \<Longrightarrow> T = ''P0'' \<or> T \<in> set locked_prefixes"
  by (auto simp: candidate_tokens_def locked_prefixes_def)

lemma candidate_reparses:
  assumes "fullmatch candidate_pattern s"
  shows "re_match_parts (fix_prefix (replace (upper s) CHR '' '' '''')) \<noteq> None"
proof -
  from candidate_shape [OF assms] obtain tok sp d dash g2 g3 where
    s: "s = tok @ sp @ d @ dash @ g2 @ ''-'' @ g3"
    and tok: "upper tok \<in> set candidate_tokens"
    and sp: "sp = [] \<or> sp = '' ''"
    and d: "d = [] \<or> (\<exists>x. d = [x] \<and> is_digit x)"
    and dash: "dash = [] \<or> dash = ''-''"
    and g: "g2 \<noteq> []" "list_all is_digit g2" "g3 \<noteq> []" "list_all is_digit g3"
    by blast
  let ?T = "upper tok"
  have dd: "list_all is_digit d" using d by auto
  have un: "upper [] = []" by (simp add: upper_def)
  have usp: "upper sp = sp" using sp upper_space_dash un by auto
  have udash: "upper dash = dash" using dash upper_space_dash un by auto
  have up: "upper s = ?T @ sp @ d @ dash @ g2 @ ''-'' @ g3"
    unfolding s upper_append usp udash
    by (simp only: upper_digits [OF dd] upper_digits [OF g(2)] upper_digits [OF g(4)]
        upper_space_dash)
  have ssp: "replace sp CHR '' '' '''' = []" using sp by (auto simp: replace_def)
  have sdash: "replace dash CHR '' '' '''' = dash" using dash by (auto simp: replace_def)
  have sone: "replace ''-'' CHR '' '' '''' = ''-''" by (simp add: replace_def)
  have st: "replace (upper s) CHR '' '' '''' = ?T @ d @ dash @ g2 @ ''-'' @ g3"
    unfolding up replace_append
    by (simp only: strip_tokens [OF tok] ssp sdash sone strip_digits [OF dd]
        strip_digits [OF g(2)] strip_digits [OF g(4)] append_Nil)
  from tail_shape [OF d dash g] obtain d1 p d2 q t where
    r: "d @ dash @ g2 @ ''-'' @ g3 = d1 @ p # d2 @ q # t"
    and sh: "d1 = [] \<or> d1 = ''-''" "is_digit p" "d2 = [] \<or> d2 = ''-''" "is_digit q"
    by blast
  have m: "replace (upper s) CHR '' '' '''' = ?T @ d1 @ p # d2 @ q # t"
    unfolding st using r by simp
  from tokens_split [OF tok] have "parts_matches (fix_prefix (?T @ d1 @ p # d2 @ q # t)) \<noteq> []"
  proof
    assume T: "?T = ''P0''"
    from sh(1) show ?thesis
    proof
      assume "d1 = []"
      then have "fix_prefix (?T @ d1 @ p # d2 @ q # t) = ''P'' @ [] @ CHR ''0'' # [] @ p # (d2 @ q # t)"
        using digit_not_special [OF sh(2)] unfolding T
        by (simp add: fix_prefix_def startswith_def)
      moreover have "parts_matches (''P'' @ [] @ CHR ''0'' # [] @ p # (d2 @ q # t)) \<noteq> []"
        by (rule parts_matches_exist) (simp_all add: is_upper_def zero_digit sh)
      ultimately show ?thesis by simp
    next
      assume "d1 = ''-''"
      then have "fix_prefix (?T @ d1 @ p # d2 @ q # t) = ''PO'' @ ''-'' @ p # d2 @ q # t"
        unfolding T by (simp add: fix_prefix_def startswith_def)
      moreover have "parts_matches (''PO'' @ ''-'' @ p # d2 @ q # t) \<noteq> []"
        by (rule parts_matches_exist) (simp_all add: is_upper_def sh)
      ultimately show ?thesis by simp
    qed
  next
    assume T: "?T \<in> set locked_prefixes"
    from locked_upper [OF T] have "?T \<noteq> []" "list_all is_upper ?T" by simp_all
    then have e: "parts_matches (?T @ d1 @ p # d2 @ q # t) \<noteq> []"
      using sh by (intro parts_matches_exist)
    show ?thesis
      unfolding fix_prefix_token [OF T] by (rule e)
  qed
  then show ?thesis
    unfolding m re_match_parts_def by (simp split: list.splits)
qed

text \<open>
  Claim C4. For every string that matches the candidate pattern: the candidate as
  \<^verbatim>\<open>process_pdf\<close> passes it on, in upper case, is normalised to a string of the canonical
  form; and on the string as it is, the result is of the canonical form, or the re-parse
  fails and the result is the string after the removal of the spaces and the prefix
  substitution, returned as it is.
\<close>

theorem autocorrect_match_canonical_or_unchanged:
  assumes "fullmatch candidate_pattern s"
  shows "is_canonical (autocorrect_match (upper s))
       \<and> (is_canonical (autocorrect_match s)
          \<or> (re_match_parts (fix_prefix (replace s CHR '' '' '''')) = None
             \<and> autocorrect_match s = fix_prefix (replace s CHR '' '' '''')))"
proof
  from candidate_reparses [OF assms] obtain g1 g2 g3 where
    "re_match_parts (fix_prefix (replace (upper s) CHR '' '' '''')) = Some (g1, g2, g3)"
    by (cases "re_match_parts (fix_prefix (replace (upper s) CHR '' '' ''''))") auto
  then show "is_canonical (autocorrect_match (upper s))"
    by (rule autocorrect_match_parsed)
next
  show "is_canonical (autocorrect_match s)
          \<or> (re_match_parts (fix_prefix (replace s CHR '' '' '''')) = None
             \<and> autocorrect_match s = fix_prefix (replace s CHR '' '' ''''))"
  proof (cases "re_match_parts (fix_prefix (replace s CHR '' '' ''''))")
    case None
    then show ?thesis by (simp add: autocorrect_match_def)
  next
    case (Some g)
    obtain g1 g2 g3 where "g = (g1, g2, g3)" by (cases g)
    with Some have "is_canonical (autocorrect_match s)"
      by (intro autocorrect_match_parsed) simp
    then show ?thesis by simp
  qed
qed

theorem autocorrect_match_canonical_or_unchanged_witness:
  "fullmatch candidate_pattern ''po 1-23-4567''
   \<and> autocorrect_match (upper ''po 1-23-4567'') = ''PO-21-0023''
   \<and> is_canonical ''PO-21-0023''
   \<and> autocorrect_match ''po 1-23-4567'' = ''po1-23-4567''"
proof -
  have h: "fullmatch candidate_pattern ''po 1-23-4567''" by code_simp
  have v: "autocorrect_match (upper ''po 1-23-4567'') = ''PO-21-0023''" by code_simp
  have w: "autocorrect_match ''po 1-23-4567'' = ''po1-23-4567''" by code_simp
  from autocorrect_match_canonical_or_unchanged [OF h] h v w show ?thesis by simp
qed

section \<open>Properties of the readiness gate\<close>

lemma wait_loop_caught:
  "(\<And>i. i < k \<Longrightarrow> opens (s + i) = RaisesFileNotFound \<or> opens (s + i) = RaisesPdfError) \<Longrightarrow>
   wait_loop opens (int (k + j)) s = wait_loop opens (int j) (s + k)"
proof (induction k arbitrary: s)
  case 0
  then show ?case by simp
next
  case (Suc k)
  have first: "opens s = RaisesFileNotFound \<or> opens s = RaisesPdfError"
    using Suc.prems [of 0] by simp
  have rest: "opens (Suc s + i) = RaisesFileNotFound \<or> opens (Suc s + i) = RaisesPdfError"
    if "i < k" for i
    using Suc.prems [of "Suc i"] that by simp
  have nz: "int (Suc k + j) \<noteq> 0" "int (Suc k + j) - 1 = int (k + j)"
    by simp_all
  have "wait_loop opens (int (Suc k + j)) s = wait_loop opens (int (k + j)) (Suc s)"
    apply (subst wait_loop.simps)
    apply (simp only: nz if_True)
    using first apply (elim disjE)
     apply simp_all
    done
  also have "\<dots> = wait_loop opens (int j) (Suc s + k)"
    by (rule Suc.IH) (rule rest)
  finally show ?case by simp
qed

lemma wait_loop_skip:
  assumes "\<forall>i<k. opens i = RaisesFileNotFound \<or> opens i = RaisesPdfError"
  shows "wait_loop opens (int (k + j)) 0 = wait_loop opens (int j) k"
proof -
  have c: "opens (0 + i) = RaisesFileNotFound \<or> opens (0 + i) = RaisesPdfError" if "i < k" for i
    using assms that by simp
  have "wait_loop opens (int (k + j)) 0 = wait_loop opens (int j) (0 + k)"
    by (rule wait_loop_caught) (rule c)
  then show ?thesis by simp
qed

lemma wait_loop_opened:
  "opens k = Opened \<Longrightarrow> wait_loop opens (int (Suc j)) k = Some (Returns True, k)"
  by (subst wait_loop.simps) simp

lemma wait_loop_other:
  "opens k = RaisesOther \<Longrightarrow> wait_loop opens (int (Suc j)) k = Some (Raises, k)"
  by (subst wait_loop.simps) simp

lemma wait_loop_exhausted:
  "wait_loop opens 0 k = Some (Returns False, k)"
  by (subst wait_loop.simps) simp

text \<open>
  Claim C8, as amended. With a budget of \<open>n\<close> attempts (5 by default), when the first
  \<open>k\<close> attempts fail with \<^verbatim>\<open>FileNotFoundError\<close> or \<^verbatim>\<open>pikepdf.PdfError\<close>:
  if attempt \<open>k + 1\<close> is within the budget and opens the file, the gate returns true after
  exactly \<open>k\<close> sleeps; if \<open>k\<close> is the whole budget, the gate returns false after \<open>n\<close> sleeps
  and raises nothing; if attempt \<open>k + 1\<close> is within the budget and raises any other
  exception, that exception leaves the gate, after \<open>k\<close> sleeps.
\<close>

theorem wait_for_file_ready_budget:
  assumes "\<forall>i<k. opens i = RaisesFileNotFound \<or> opens i = RaisesPdfError"
  shows "(k < n \<and> opens k = Opened \<longrightarrow> wait_for_file_ready (int n) opens = Some (Returns True, k))
       \<and> (k = n \<longrightarrow> wait_for_file_ready (int n) opens = Some (Returns False, n))
       \<and> (k < n \<and> opens k = RaisesOther \<longrightarrow> wait_for_file_ready (int n) opens = Some (Raises, k))"
proof (intro conjI impI)
  assume "k < n \<and> opens k = Opened"
  then have "k < n" and o: "opens k = Opened" by simp_all
  then obtain j where "n = Suc (k + j)" by (auto dest: less_imp_Suc_add)
  then have n: "n = k + Suc j" by simp
  show "wait_for_file_ready (int n) opens = Some (Returns True, k)"
    unfolding wait_for_file_ready_def n
    by (simp only: wait_loop_skip [OF assms] wait_loop_opened [of opens k, OF o])
next
  assume "k = n"
  then have n: "n = k + 0" by simp
  show "wait_for_file_ready (int n) opens = Some (Returns False, n)"
    unfolding wait_for_file_ready_def
    by (subst n, simp only: wait_loop_skip [OF assms] of_nat_0 wait_loop_exhausted) (simp add: \<open>k = n\<close>)
next
  assume "k < n \<and> opens k = RaisesOther"
  then have "k < n" and o: "opens k = RaisesOther" by simp_all
  then obtain j where "n = Suc (k + j)" by (auto dest: less_imp_Suc_add)
  then have n: "n = k + Suc j" by simp
  show "wait_for_file_ready (int n) opens = Some (Raises, k)"
    unfolding wait_for_file_ready_def n
    by (simp only: wait_loop_skip [OF assms] wait_loop_other [of opens k, OF o])
qed

theorem wait_for_file_ready_budget_witness:
  "open_third_time 0 = RaisesPdfError \<and> open_third_time 1 = RaisesPdfError
   \<and> open_third_time 2 = Opened
   \<and> wait_for_file_ready 5 open_third_time = Some (Returns True, 2)"
proof -
  have h: "\<forall>i<2. open_third_time i = RaisesFileNotFound \<or> open_third_time i = RaisesPdfError"
    by (simp add: open_third_time_def)
  have o: "open_third_time 2 = Opened"
    by (simp add: open_third_time_def)
  have a: "open_third_time 0 = RaisesPdfError" "open_third_time 1 = RaisesPdfError"
    by (simp_all add: open_third_time_def)
  have r: "wait_for_file_ready 5 open_third_time = Some (Returns True, 2)"
    using wait_for_file_ready_budget [OF h, of 5] o by simp
  from a o r show ?thesis
    by simp
qed

text \<open>
  Claim C8 as stated fails: a file that no attempt can open, because \<^verbatim>\<open>pikepdf.open\<close> raises
  an exception that line 59 does not catch (a \<^verbatim>\<open>PermissionError\<close>, say), does not make the
  gate return false; the exception leaves the gate at the first attempt.
\<close>

theorem wait_for_file_ready_raises_counterexample:
  "wait_for_file_ready 5 open_denied = Some (Raises, 0)"
  unfolding wait_for_file_ready_def
  by (subst wait_loop.simps) (simp add: open_denied_def)

section \<open>Properties of the classification stage\<close>

lemma endswith_PDF_not_pdf: "endswith p ''.PDF'' \<Longrightarrow> \<not> endswith p ''.pdf''"
  by (auto simp: endswith_def)

text \<open>
  Claim C9. A path that ends in the upper-case extension \<^verbatim>\<open>.PDF\<close> is accepted by the watch
  patterns, and the classification stage does nothing on it: \<^verbatim>\<open>process_pdf\<close> returns with
  the file system as it found it, so the file is neither renamed, nor moved to
  \<^verbatim>\<open>final-output\<close>, nor quarantined, and a \<^verbatim>\<open>created\<close> event leaves the file system as the
  ingest stage left it.
\<close>

theorem uppercase_extension_is_not_classified:
  assumes "endswith p ''.PDF''"
  shows "watched p
       \<and> process_pdf E w p = Some (w, Finished)
       \<and> on_any_event E execute_ocrmypdf w ''created'' p =
           (case execute_ocrmypdf w p of
              Inl e \<Rightarrow> Some (w, Escaped e)
            | Inr w1 \<Rightarrow> Some (w1, Finished))"
proof -
  from assms have n: "\<not> endswith p ''.pdf''" by (rule endswith_PDF_not_pdf)
  have p: "process_pdf E w' p = Some (w', Finished)" for w'
    using n by (simp add: process_pdf_def)
  have "watched p"
    using assms by (simp add: watched_def PATTERNS_def pattern_accepts_def)
  moreover have "on_any_event E execute_ocrmypdf w ''created'' p =
           (case execute_ocrmypdf w p of
              Inl e \<Rightarrow> Some (w, Escaped e)
            | Inr w1 \<Rightarrow> Some (w1, Finished))"
    by (simp add: on_any_event_def p split: sum.splits)
  ultimately show ?thesis using p by simp
qed

theorem uppercase_extension_is_not_classified_witness:
  "endswith ''scan-input/A.PDF'' ''.PDF''
   \<and> process_pdf plain_env coded_world ''scan-input/A.PDF'' = Some (coded_world, Finished)"
proof -
  have h: "endswith ''scan-input/A.PDF'' ''.PDF''" by code_simp
  from uppercase_extension_is_not_classified [OF h, of plain_env coded_world] h
  show ?thesis by simp
qed

text \<open>
  Claim C3, at an input where the code departs from it. Thirteen distinct normalised codes,
  in order, join to 143 characters, which is not more than 146; the final name is not the
  joined name followed by \<^verbatim>\<open>.pdf\<close>: the test of line 160 measures the name with its suffix,
  so the suffix is cut to \<^verbatim>\<open>.pd\<close> and a second suffix is appended.
\<close>

theorem truncation_test_counts_the_suffix:
  "length (join_underscore thirteen_codes) = 143
   \<and> normalized_codes thirteen_codes = thirteen_codes
   \<and> build_final_name thirteen_codes = join_underscore thirteen_codes @ ''.pd.pdf''"
  by code_simp

text \<open>
  Claim C1, at an input where the code departs from it. The document holds a code and the
  directory \<^verbatim>\<open>final-output\<close> cannot be written. The rename of line 168 succeeds, the move
  of line 169 raises, and the handler finds nothing at the original path: the file ends in
  the input directory under its new name, which is neither its original location, nor
  \<^verbatim>\<open>final-output\<close>, nor \<^verbatim>\<open>ERROR\<close>, and \<^verbatim>\<open>ERROR\<close> is not created.
\<close>

theorem failed_move_leaves_renamed_file:
  "(case process_pdf readonly_output_env coded_world ''scan-input/a.pdf'' of
      None \<Rightarrow> False
    | Some (w', out) \<Rightarrow>
        out = Finished
        \<and> files w' ''scan-input/a.pdf'' = None
        \<and> files w' ''final-output/PO-20-0002.pdf'' = None
        \<and> files w' ''ERROR/a.pdf'' = None
        \<and> ''ERROR'' \<notin> dirs w'
        \<and> files w' ''scan-input/PO-20-0002.pdf'' = Some ''ref P0-20-0002 attached'')"
  by code_simp

text \<open>
  Claim C5, at an input where the code departs from it. A document without a code is moved
  to \<^verbatim>\<open>final-output\<close> under its own name by line 172, which probes no suffix: the document
  of the same name that was filed before is replaced.
\<close>

theorem uncoded_document_overwrites:
  "files uncoded_world ''final-output/a.pdf'' = Some ''older document''
   \<and> (case process_pdf plain_env uncoded_world ''scan-input/a.pdf'' of
        None \<Rightarrow> False
      | Some (w', out) \<Rightarrow>
          out = Finished
          \<and> files w' ''scan-input/a.pdf'' = None
          \<and> files w' ''final-output/a.pdf'' = Some ''no code''
          \<and> files w' ''final-output/a(1).pdf'' = None)"
  by code_simp

section \<open>Documents without a code\<close>























end
